theory Spec2Isabelle
  imports Main "HOL-Library.Multiset"
begin

section \<open>The consistent hash ring of chr.py\<close>

text \<open>
  The ring is a binary search tree ordered by the hash of the stored values, with a lookup
  of its own (\<open>find_best_match\<close>). The hash function is Python's builtin \<open>hash\<close>;
  it belongs to the environment, so every operation takes it as the parameter \<open>h\<close>.
  Python's truth test of a value (\<open>if best_match:\<close>) is the parameter \<open>truthy\<close>.
\<close>

subsection \<open>class SubTree\<close>

text \<open>
  A node has the attributes \<open>value\<close>, \<open>key\<close>, \<open>left\<close> and \<open>right\<close>; a child that
  is Python's \<open>None\<close> is \<open>None\<close> here. Nodes are owned by exactly one parent, so the
  in-place updates of the source are modelled by returning the updated node.
\<close>

datatype 'a SubTree =
  Node (val: 'a) (key: int) (left: "'a SubTree option") (right: "'a SubTree option")

text \<open>\<open>SubTree.__init__(value)\<close>: the key is computed from the value, no children.\<close>

definition new_SubTree :: "('a \<Rightarrow> int) \<Rightarrow> 'a \<Rightarrow> 'a SubTree" where
  "new_SubTree h v = Node v (h v) None None"

text \<open>\<open>SubTree.add_child\<close>: the three tests of the source are exclusive on integers.\<close>

fun add_child :: "('a \<Rightarrow> int) \<Rightarrow> 'a SubTree \<Rightarrow> 'a \<Rightarrow> 'a SubTree" where
  "add_child h (Node v k l r) x =
     (if h x = k then Node v k l r
      else if h x > k then
        (case r of
           None \<Rightarrow> Node v k l (Some (new_SubTree h x))
         | Some r' \<Rightarrow> Node v k l (Some (add_child h r' x)))
      else
        (case l of
           None \<Rightarrow> Node v k (Some (new_SubTree h x)) r
         | Some l' \<Rightarrow> Node v k (Some (add_child h l' x)) r))"

text \<open>\<open>SubTree._find_minimum_subtree_child_value\<close>: the value of the leftmost node.\<close>

fun find_minimum_subtree_child_value :: "'a SubTree \<Rightarrow> 'a" where
  "find_minimum_subtree_child_value (Node v k l r) =
     (case l of None \<Rightarrow> v | Some l' \<Rightarrow> find_minimum_subtree_child_value l')"

text \<open>\<open>SubTree._find_in_order_successor\<close>: \<open>None\<close> without a right child.\<close>

definition find_in_order_successor :: "'a SubTree \<Rightarrow> 'a option" where
  "find_in_order_successor t =
     (case right t of
        None \<Rightarrow> None
      | Some r \<Rightarrow> Some (find_minimum_subtree_child_value r))"

text \<open>
  \<open>SubTree.remove_value\<close> returns the node that takes the place of this one, \<open>None\<close> for
  no node. With two children the source assigns \<open>self.value\<close> and \<open>self.right\<close> only:
  \<open>self.key\<close> keeps the key of the removed value. On a key mismatch it descends into
  both children.
\<close>

fun remove_value :: "('a \<Rightarrow> int) \<Rightarrow> 'a SubTree \<Rightarrow> 'a \<Rightarrow> 'a SubTree option" where
  "remove_value h (Node v k l r) x =
     (if h x = k then
        (case (l, r) of
           (None, None) \<Rightarrow> None
         | (None, Some r') \<Rightarrow> Some r'
         | (Some l', None) \<Rightarrow> Some l'
         | (Some l', Some r') \<Rightarrow>
             (let s = find_minimum_subtree_child_value r'
              in Some (Node s k (Some l') (remove_value h r' s))))
      else
        Some (Node v k
          (case l of None \<Rightarrow> None | Some l' \<Rightarrow> remove_value h l' x)
          (case r of None \<Rightarrow> None | Some r' \<Rightarrow> remove_value h r' x)))"

text \<open>\<open>SubTree.__contains__\<close>: the recursive comparison of keys.\<close>

fun contains :: "('a \<Rightarrow> int) \<Rightarrow> 'a SubTree \<Rightarrow> 'a \<Rightarrow> bool" where
  "contains h (Node v k l r) x =
     (if h x = k then True
      else if h x > k then (case r of None \<Rightarrow> False | Some r' \<Rightarrow> contains h r' x)
      else (case l of None \<Rightarrow> False | Some l' \<Rightarrow> contains h l' x))"

text \<open>\<open>SubTree.__iter__\<close>: the generator yields finitely many values, collected in a list.\<close>

fun iter :: "'a SubTree \<Rightarrow> 'a list" where
  "iter (Node v k l r) =
     (case l of None \<Rightarrow> [] | Some l' \<Rightarrow> iter l') @ [v] @
     (case r of None \<Rightarrow> [] | Some r' \<Rightarrow> iter r')"

text \<open>
  What a (possibly absent) subtree stores, read in the order of the traversal: the pairs of
  the \<open>key\<close> and \<open>value\<close> attributes of its nodes, and the \<open>key\<close> attributes alone.
\<close>

fun entries :: "'a SubTree option \<Rightarrow> (int \<times> 'a) list" where
  "entries None = []"
| "entries (Some (Node v k l r)) = entries l @ (k, v) # entries r"

definition keys :: "'a SubTree option \<Rightarrow> int list" where
  "keys c = map fst (entries c)"

subsection \<open>class ConsistentHashRing\<close>

record 'a ConsistentHashRing =
  head :: "'a SubTree option"

datatype error = TypeError

text \<open>\<open>ConsistentHashRing.__init__(value=None)\<close>.\<close>

definition new_ring :: "('a \<Rightarrow> int) \<Rightarrow> 'a option \<Rightarrow> 'a ConsistentHashRing" where
  "new_ring h value =
     (case value of None \<Rightarrow> \<lparr>head = None\<rparr> | Some v \<Rightarrow> \<lparr>head = Some (new_SubTree h v)\<rparr>)"

definition add_node :: "('a \<Rightarrow> int) \<Rightarrow> 'a ConsistentHashRing \<Rightarrow> 'a \<Rightarrow> 'a ConsistentHashRing" where
  "add_node h ring x =
     (case head ring of
        None \<Rightarrow> ring\<lparr>head := Some (new_SubTree h x)\<rparr>
      | Some t \<Rightarrow> ring\<lparr>head := Some (add_child h t x)\<rparr>)"

definition remove_node :: "('a \<Rightarrow> int) \<Rightarrow> 'a ConsistentHashRing \<Rightarrow> 'a \<Rightarrow> 'a ConsistentHashRing" where
  "remove_node h ring x =
     (case head ring of
        None \<Rightarrow> ring
      | Some t \<Rightarrow> ring\<lparr>head := remove_value h t x\<rparr>)"

text \<open>
  The loop of \<open>find_best_match\<close>. \<open>best_match\<close> is \<open>None\<close> or a value. The source assigns
  \<open>best_match_key\<close> twice: \<open>float("inf")\<close> together with \<open>best_match = None\<close>, and
  \<open>hash(best_match)\<close> right after each assignment of \<open>best_match\<close>; so it is a function
  of \<open>best_match\<close>, with \<open>None\<close> for infinity. An integer distance is below an infinite one.
\<close>

definition best_match_key :: "('a \<Rightarrow> int) \<Rightarrow> 'a option \<Rightarrow> int option" where
  "best_match_key h best_match = map_option h best_match"

definition closer :: "int \<Rightarrow> int \<Rightarrow> int option \<Rightarrow> bool" where
  "closer node_key k bmk =
     (case bmk of None \<Rightarrow> True | Some b \<Rightarrow> \<bar>node_key - k\<bar> < \<bar>b - k\<bar>)"

text \<open>
  The walk ends with \<open>Inl v\<close> on the early \<open>return current_node.value\<close>, or with
  \<open>Inr best_match\<close> when \<open>current_node\<close> has become \<open>None\<close>.
\<close>

fun walk :: "('a \<Rightarrow> int) \<Rightarrow> int \<Rightarrow> 'a SubTree option \<Rightarrow> 'a option \<Rightarrow> 'a + 'a option" where
  "walk h k None best_match = Inr best_match"
| "walk h k (Some (Node v nk l r)) best_match =
     (if nk = k then Inl v
      else if nk > k then
        walk h k l (if closer nk k (best_match_key h best_match) then Some v else best_match)
      else walk h k r best_match)"

text \<open>
  \<open>ConsistentHashRing.find_best_match\<close>. The result \<open>None\<close> is Python's \<open>None\<close>. The last
  test is the truth value of \<open>best_match\<close>: \<open>None\<close> is false, a value is what
  \<open>truthy\<close> says.
\<close>

definition find_best_match ::
  "('a \<Rightarrow> int) \<Rightarrow> ('a \<Rightarrow> bool) \<Rightarrow> 'a ConsistentHashRing \<Rightarrow> 'a \<Rightarrow> 'a option" where
  "find_best_match h truthy ring x =
     (case head ring of
        None \<Rightarrow> None
      | Some t \<Rightarrow>
          (case walk h (h x) (Some t) None of
             Inl v \<Rightarrow> Some v
           | Inr best_match \<Rightarrow>
               (case best_match of
                  Some b \<Rightarrow>
                    if truthy b then Some b
                    else Some (find_minimum_subtree_child_value t)
                | None \<Rightarrow> Some (find_minimum_subtree_child_value t))))"

text \<open>
  \<open>ConsistentHashRing.__iter__\<close> is \<open>iter(self.head)\<close>, and \<open>iter(None)\<close> raises
  \<open>TypeError\<close>. \<open>__len__\<close> sums over the same \<open>iter(self.head)\<close>.
\<close>

definition ring_iter :: "'a ConsistentHashRing \<Rightarrow> error + 'a list" where
  "ring_iter ring = (case head ring of None \<Rightarrow> Inl TypeError | Some t \<Rightarrow> Inr (iter t))"

definition ring_len :: "'a ConsistentHashRing \<Rightarrow> error + nat" where
  "ring_len ring =
     (case head ring of None \<Rightarrow> Inl TypeError | Some t \<Rightarrow> Inr (length (iter t)))"

text \<open>
  The class has no \<open>__contains__\<close>. Python then decides \<open>value in ring\<close> with
  \<open>__iter__\<close>: it looks for an element of the traversal equal to the value.
\<close>

definition ring_contains :: "'a ConsistentHashRing \<Rightarrow> 'a \<Rightarrow> error + bool" where
  "ring_contains ring x =
     (case ring_iter ring of Inl e \<Rightarrow> Inl e | Inr xs \<Rightarrow> Inr (x \<in> set xs))"

subsection \<open>Sequences of operations\<close>

datatype 'a operation = Add 'a | Remove 'a

fun apply_operation ::
  "('a \<Rightarrow> int) \<Rightarrow> 'a ConsistentHashRing \<Rightarrow> 'a operation \<Rightarrow> 'a ConsistentHashRing" where
  "apply_operation h ring (Add x) = add_node h ring x"
| "apply_operation h ring (Remove x) = remove_node h ring x"

definition run :: "('a \<Rightarrow> int) \<Rightarrow> 'a operation list \<Rightarrow> 'a ConsistentHashRing" where
  "run h ops = foldl (apply_operation h) (new_ring h None) ops"

subsection \<open>Python integers as values\<close>

text \<open>
  CPython's hash of an integer (64-bit build): the absolute value modulo \<open>2^61 - 1\<close> with
  the sign of the integer, and \<open>-2\<close> in place of \<open>-1\<close>. An integer is true unless it is 0.
\<close>

definition py_hash_int :: "int \<Rightarrow> int" where
  "py_hash_int n =
     (let m = \<bar>n\<bar> mod (2 ^ 61 - 1);
          s = (if n < 0 then - m else m)
      in if s = - 1 then - 2 else s)"

definition py_truthy_int :: "int \<Rightarrow> bool" where
  "py_truthy_int n = (n \<noteq> 0)"

subsection \<open>Python values with None\<close>

text \<open>
  \<open>add_node\<close> takes any hashable value, Python's \<open>None\<close> included. Where that matters a
  value is \<open>None\<close> or \<open>Some a\<close> for a value \<open>a\<close> other than \<open>None\<close>. \<open>hash(None)\<close> is an
  integer fixed by the interpreter, the parameter \<open>hash_none\<close>; \<open>None\<close> is false.
\<close>

definition py_hash :: "int \<Rightarrow> ('v \<Rightarrow> int) \<Rightarrow> 'v option \<Rightarrow> int" where
  "py_hash hash_none hv v = (case v of None \<Rightarrow> hash_none | Some a \<Rightarrow> hv a)"

definition py_truthy :: "('v \<Rightarrow> bool) \<Rightarrow> 'v option \<Rightarrow> bool" where
  "py_truthy tv v = (case v of None \<Rightarrow> False | Some a \<Rightarrow> tv a)"

text \<open>
  What the caller of \<open>find_best_match\<close> receives is a Python value: "no value" and a
  stored \<open>None\<close> are the same \<open>None\<close>.
\<close>

definition returned_value :: "'v option option \<Rightarrow> 'v option" where
  "returned_value r = (case r of None \<Rightarrow> None | Some v \<Rightarrow> v)"


section \<open>What a tree stores\<close>

lemma keys_simps [simp]:
  "keys None = []"
  "keys (Some (Node v k l r)) = keys l @ k # keys r"
  by (simp_all add: keys_def)

lemma iter_entries: "iter t = map snd (entries (Some t))"
  by (induction t) (auto split: option.splits)

lemma keys_add_child: "set (keys (Some (add_child h t x))) = insert (h x) (set (keys (Some t)))"
  by (induction h t x rule: add_child.induct)
     (auto simp: new_SubTree_def split: option.splits)

lemma find_in_order_successor_right:
  "find_in_order_successor (Node v k l (Some r)) = Some (find_minimum_subtree_child_value r)"
  by (simp add: find_in_order_successor_def)

lemma new_ring_seeded: "new_ring h (Some v) = add_node h (new_ring h None) v"
  by (simp add: new_ring_def add_node_def)

lemma run_snoc: "run h (ops @ [op]) = apply_operation h (run h ops) op"
  by (simp add: run_def)

lemma find_minimum_in_iter: "find_minimum_subtree_child_value t \<in> set (iter t)"
  by (induction t) (auto split: option.splits)

lemma walk_Inl_in_iter:
  "walk h k c bm = Inl v \<Longrightarrow> \<exists>t. c = Some t \<and> v \<in> set (iter t)"
proof (induction h k c bm rule: walk.induct)
  case (1 h k best_match)
  then show ?case by simp
next
  case (2 h k v nk l r best_match)
  then show ?case
    by (auto split: if_splits option.splits)
qed

lemma walk_Inr_in_iter:
  "walk h k c bm = Inr (Some b) \<Longrightarrow> bm = Some b \<or> (\<exists>t. c = Some t \<and> b \<in> set (iter t))"
proof (induction h k c bm rule: walk.induct)
  case (1 h k best_match)
  then show ?case by simp
next
  case (2 h k v nk l r best_match)
  then show ?case
    by (auto split: if_splits option.splits)
qed

lemma entries_Some_nonempty: "entries (Some t) \<noteq> []"
  by (cases t) simp

lemma hd_entries_minimum:
  "snd (hd (entries (Some t))) = find_minimum_subtree_child_value t"
proof (induction t)
  case (Node v k l r)
  show ?case
  proof (cases l)
    case None
    then show ?thesis by simp
  next
    case (Some l')
    with Node.IH(1) [of l'] entries_Some_nonempty [of l'] show ?thesis by simp
  qed
qed

section \<open>The order of the keys\<close>

text \<open>
  The \<open>key\<close> attributes, read in the order of the traversal, are strictly increasing: this
  is the search-tree invariant. \<open>add_child\<close> and \<open>remove_value\<close> keep it, whatever the
  values are, so it holds for every ring that a sequence of operations builds.
\<close>

lemma sorted_add_child:
  "sorted_wrt (<) (keys (Some t)) \<Longrightarrow> sorted_wrt (<) (keys (Some (add_child h t x)))"
proof (induction h t x rule: add_child.induct)
  case (1 h v k l r x)
  from "1.prems" have sl: "sorted_wrt (<) (keys l)" and sr: "sorted_wrt (<) (keys r)"
    and lk: "\<forall>a\<in>set (keys l). a < k" and kr: "\<forall>b\<in>set (keys r). k < b"
    and lr: "\<forall>a\<in>set (keys l). \<forall>b\<in>set (keys r). a < b"
    by (auto simp: sorted_wrt_append)
  consider (eq) "h x = k" | (gt) "k < h x" | (lt) "h x < k" by linarith
  then show ?case
  proof cases
    case eq
    with "1.prems" show ?thesis by simp
  next
    case gt
    show ?thesis
    proof (cases r)
      case None
      with gt sl lk show ?thesis
        by (auto simp: new_SubTree_def sorted_wrt_append)
    next
      case (Some r')
      with gt "1.IH"(1) sr have "sorted_wrt (<) (keys (Some (add_child h r' x)))" by simp
      moreover have "set (keys (Some (add_child h r' x))) = insert (h x) (set (keys r))"
        using Some by (simp add: keys_add_child)
      ultimately show ?thesis using gt Some sl lk kr lr
        by (auto simp: sorted_wrt_append)
    qed
  next
    case lt
    show ?thesis
    proof (cases l)
      case None
      with lt sr kr show ?thesis
        by (auto simp: new_SubTree_def sorted_wrt_append)
    next
      case (Some l')
      with lt "1.IH"(2) sl have "sorted_wrt (<) (keys (Some (add_child h l' x)))" by simp
      moreover have "set (keys (Some (add_child h l' x))) = insert (h x) (set (keys l))"
        using Some by (simp add: keys_add_child)
      ultimately show ?thesis using lt Some sr lk kr lr
        by (auto simp: sorted_wrt_append)
    qed
  qed
qed

lemma keys_remove_value: "set (keys (remove_value h t x)) \<subseteq> set (keys (Some t))"
proof (induction h t x rule: remove_value.induct)
  case (1 h v k l r x)
  show ?case
  proof (cases "h x = k")
    case True
    show ?thesis
    proof (cases l)
      case None
      with True show ?thesis by (cases r) auto
    next
      case l: (Some l')
      show ?thesis
      proof (cases r)
        case None
        with True l show ?thesis by auto
      next
        case (Some r')
        with True l "1.IH"(1) [OF True refl l Some refl]
        show ?thesis by (auto simp: Let_def)
      qed
    qed
  next
    case False
    have "set (keys (case l of None \<Rightarrow> None | Some l' \<Rightarrow> remove_value h l' x)) \<subseteq> set (keys l)"
      using "1.IH"(2) [OF False] by (cases l) auto
    moreover
    have "set (keys (case r of None \<Rightarrow> None | Some r' \<Rightarrow> remove_value h r' x)) \<subseteq> set (keys r)"
      using "1.IH"(3) [OF False] by (cases r) auto
    ultimately show ?thesis using False by auto
  qed
qed

lemma sorted_remove_value:
  "sorted_wrt (<) (keys (Some t)) \<Longrightarrow> sorted_wrt (<) (keys (remove_value h t x))"
proof (induction h t x rule: remove_value.induct)
  case (1 h v k l r x)
  from "1.prems" have sl: "sorted_wrt (<) (keys l)" and sr: "sorted_wrt (<) (keys r)"
    and lk: "\<forall>a\<in>set (keys l). a < k" and kr: "\<forall>b\<in>set (keys r). k < b"
    and lr: "\<forall>a\<in>set (keys l). \<forall>b\<in>set (keys r). a < b"
    by (auto simp: sorted_wrt_append)
  show ?case
  proof (cases "h x = k")
    case True
    show ?thesis
    proof (cases l)
      case None
      with True sr show ?thesis by (cases r) auto
    next
      case l: (Some l')
      show ?thesis
      proof (cases r)
        case None
        with True l sl show ?thesis by auto
      next
        case (Some r')
        let ?s = "find_minimum_subtree_child_value r'"
        have "sorted_wrt (<) (keys (remove_value h r' ?s))"
          using "1.IH"(1) [OF True refl l Some refl] sr Some by simp
        moreover have "set (keys (remove_value h r' ?s)) \<subseteq> set (keys r)"
          using keys_remove_value [of h r' ?s] Some by simp
        ultimately show ?thesis using True l Some sl lk kr lr
          by (auto simp: Let_def sorted_wrt_append)
      qed
    qed
  next
    case False
    let ?l = "case l of None \<Rightarrow> None | Some l' \<Rightarrow> remove_value h l' x"
    let ?r = "case r of None \<Rightarrow> None | Some r' \<Rightarrow> remove_value h r' x"
    have "sorted_wrt (<) (keys ?l)" using "1.IH"(2) [OF False] sl by (cases l) auto
    moreover have "sorted_wrt (<) (keys ?r)" using "1.IH"(3) [OF False] sr by (cases r) auto
    moreover have "set (keys ?l) \<subseteq> set (keys l)"
      using keys_remove_value [of h _ x] by (cases l) auto
    moreover have "set (keys ?r) \<subseteq> set (keys r)"
      using keys_remove_value [of h _ x] by (cases r) auto
    ultimately have "sorted_wrt (<) (keys ?l)" "sorted_wrt (<) (keys ?r)"
      "\<forall>a\<in>set (keys ?l). a < k" "\<forall>b\<in>set (keys ?r). k < b"
      "\<forall>a\<in>set (keys ?l). \<forall>b\<in>set (keys ?r). a < b"
      using lk kr lr by blast+
    then show ?thesis using False
      by (simp add: sorted_wrt_append)
  qed
qed

lemma sorted_apply_operation:
  "sorted_wrt (<) (keys (head ring)) \<Longrightarrow>
   sorted_wrt (<) (keys (head (apply_operation h ring op)))"
  by (cases op)
     (auto simp: add_node_def remove_node_def new_SubTree_def sorted_add_child
        sorted_remove_value split: option.splits)

lemma sorted_run: "sorted_wrt (<) (keys (head (run h ops)))"
  unfolding run_def
  by (induction ops rule: rev_induct) (simp_all add: new_ring_def sorted_apply_operation)

section \<open>Searching a tree with ordered keys\<close>

lemma walk_all_smaller: "\<forall>k'\<in>set (keys c). k' < k \<Longrightarrow> walk h k c bm = Inr bm"
  by (induction h k c bm rule: walk.induct) auto

lemma hd_sorted_Min:
  fixes ks :: "int list"
  assumes "sorted_wrt (<) ks" and "ks \<noteq> []"
  shows "hd ks = Min (set ks)"
proof (cases ks)
  case Nil
  with assms(2) show ?thesis by simp
next
  case (Cons a list)
  with assms(1) have "\<forall>b\<in>set list. a < b" by simp
  then have "Min (set (a # list)) = a"
    by (intro Min_eqI) (auto simp: less_imp_le)
  with Cons show ?thesis by simp
qed

lemma minimum_entry:
  assumes "sorted_wrt (<) (keys (Some t))"
  shows "(Min (set (keys (Some t))), find_minimum_subtree_child_value t) \<in> set (entries (Some t))"
proof -
  have ne: "entries (Some t) \<noteq> []" by (rule entries_Some_nonempty)
  then have "hd (keys (Some t)) = fst (hd (entries (Some t)))"
    by (simp add: keys_def hd_map)
  moreover have "hd (keys (Some t)) = Min (set (keys (Some t)))"
    using assms ne by (intro hd_sorted_Min) (simp_all add: keys_def)
  ultimately have "hd (entries (Some t)) = (Min (set (keys (Some t))), find_minimum_subtree_child_value t)"
    using hd_entries_minimum [of t] by (simp add: prod_eq_iff)
  with ne show ?thesis by (metis hd_in_set)
qed

lemma entries_key_unique:
  assumes "sorted_wrt (<) (keys c)" "(k, v) \<in> set (entries c)" "(k, w) \<in> set (entries c)"
  shows "v = w"
proof -
  from assms(1) have "distinct (map fst (entries c))"
    by (simp add: keys_def strict_sorted_iff)
  then show ?thesis using assms(2,3) by (rule eq_key_imp_eq_value)
qed

lemma contains_iff_key:
  "sorted_wrt (<) (keys (Some t)) \<Longrightarrow> contains h t x \<longleftrightarrow> h x \<in> set (keys (Some t))"
proof (induction t)
  case (Node v k l r)
  from Node.prems have sl: "sorted_wrt (<) (keys l)" and sr: "sorted_wrt (<) (keys r)"
    and lk: "\<forall>a\<in>set (keys l). a < k" and kr: "\<forall>b\<in>set (keys r). k < b"
    by (auto simp: sorted_wrt_append)
  consider (eq) "h x = k" | (gt) "k < h x" | (lt) "h x < k" by linarith
  then show ?case
  proof cases
    case eq
    then show ?thesis by simp
  next
    case gt
    with lk have nl: "h x \<notin> set (keys l)" by auto
    show ?thesis
    proof (cases r)
      case None
      with gt nl show ?thesis by simp
    next
      case (Some r')
      with Node.IH(2) [of r'] sr have "contains h r' x \<longleftrightarrow> h x \<in> set (keys r)" by simp
      with gt nl Some show ?thesis by simp
    qed
  next
    case lt
    with kr have nr: "h x \<notin> set (keys r)" by auto
    show ?thesis
    proof (cases l)
      case None
      with lt nr show ?thesis by simp
    next
      case (Some l')
      with Node.IH(1) [of l'] sl have "contains h l' x \<longleftrightarrow> h x \<in> set (keys l)" by simp
      with lt nr Some show ?thesis by simp
    qed
  qed
qed

lemma consistent_keys:
  "list_all (\<lambda>(k, v). k = h v) (entries c) \<Longrightarrow> keys c = map h (map snd (entries c))"
  by (induction "entries c" arbitrary: c) (auto simp: keys_def list_all_iff)

lemma walk_exact:
  "sorted_wrt (<) (keys c) \<Longrightarrow> (k, w) \<in> set (entries c) \<Longrightarrow> walk h k c bm = Inl w"
proof (induction h k c bm rule: walk.induct)
  case (1 h k best_match)
  then show ?case by simp
next
  case (2 h k v nk l r best_match)
  from "2.prems"(1) have sl: "sorted_wrt (<) (keys l)" and sr: "sorted_wrt (<) (keys r)"
    and lk: "\<forall>a\<in>set (keys l). a < nk" and kr: "\<forall>b\<in>set (keys r). nk < b"
    by (auto simp: sorted_wrt_append)
  have mem: "(k, w) \<in> set (entries c) \<Longrightarrow> k \<in> set (keys c)" for c :: "'a SubTree option"
    by (force simp: keys_def)
  consider (eq) "nk = k" | (gt) "k < nk" | (lt) "nk < k" by linarith
  then show ?case
  proof cases
    case eq
    with lk kr mem [of l] mem [of r] "2.prems"(2) show ?thesis by fastforce
  next
    case gt
    with kr mem [of r] "2.prems"(2) have "(k, w) \<in> set (entries l)" by fastforce
    with gt "2.IH"(1) sl show ?thesis by simp
  next
    case lt
    with lk mem [of l] "2.prems"(2) have "(k, w) \<in> set (entries r)" by fastforce
    with lt "2.IH"(2) sr show ?thesis by simp
  qed
qed

lemma contains_add_child: "contains h (add_child h t x) x"
  by (induction h t x rule: add_child.induct)
     (auto simp: new_SubTree_def split: option.splits)

lemma remove_value_absent: "h x \<notin> set (keys (Some t)) \<Longrightarrow> remove_value h t x = Some t"
  by (induction t) (auto split: option.splits)

lemma add_child_present:
  "sorted_wrt (<) (keys (Some t)) \<Longrightarrow> h x \<in> set (keys (Some t)) \<Longrightarrow> add_child h t x = t"
proof (induction t)
  case (Node v k l r)
  from Node.prems(1) have sl: "sorted_wrt (<) (keys l)" and sr: "sorted_wrt (<) (keys r)"
    and lk: "\<forall>a\<in>set (keys l). a < k" and kr: "\<forall>b\<in>set (keys r). k < b"
    by (auto simp: sorted_wrt_append)
  consider (eq) "h x = k" | (gt) "k < h x" | (lt) "h x < k" by linarith
  then show ?case
  proof cases
    case eq
    then show ?thesis by simp
  next
    case gt
    with lk Node.prems(2) have "h x \<in> set (keys r)" by auto
    with gt Node.IH(2) sr show ?thesis by (cases r) auto
  next
    case lt
    with kr Node.prems(2) have "h x \<in> set (keys l)" by auto
    with lt Node.IH(1) sl show ?thesis by (cases l) auto
  qed
qed

lemma entries_add_child:
  "h x \<notin> set (keys (Some t)) \<Longrightarrow>
   mset (entries (Some (add_child h t x))) = add_mset (h x, x) (mset (entries (Some t)))"
  by (induction h t x rule: add_child.induct)
     (auto simp: new_SubTree_def split: option.splits)

lemma wraparound_key_attribute:
  assumes "head (run h ops) = Some t" and "\<forall>k\<in>set (keys (Some t)). k < h x"
  shows "\<exists>w. find_best_match h truthy (run h ops) x = Some w \<and>
           (Min (set (keys (Some t))), w) \<in> set (entries (Some t)) \<and>
           (\<forall>w'. (Min (set (keys (Some t))), w') \<in> set (entries (Some t)) \<longrightarrow> w' = w)"
proof -
  have s: "sorted_wrt (<) (keys (Some t))" using sorted_run [of h ops] assms(1) by simp
  have "walk h (h x) (Some t) None = Inr None" using assms(2) by (rule walk_all_smaller)
  then have "find_best_match h truthy (run h ops) x = Some (find_minimum_subtree_child_value t)"
    using assms(1) by (simp add: find_best_match_def)
  moreover note minimum_entry [OF s]
  moreover have "\<forall>w'. (Min (set (keys (Some t))), w') \<in> set (entries (Some t)) \<longrightarrow>
      w' = find_minimum_subtree_child_value t"
    using entries_key_unique [OF s _ minimum_entry [OF s]] by blast
  ultimately show ?thesis by blast
qed

lemma wraparound_consistent:
  assumes "head (run h ops) = Some t"
    and "list_all (\<lambda>(k, v). k = h v) (entries (Some t))"
    and "\<forall>v\<in>set (iter t). h v < h x"
  shows "\<exists>w\<in>set (iter t). find_best_match h truthy (run h ops) x = Some w \<and>
           (\<forall>v\<in>set (iter t). h w \<le> h v)"
proof -
  let ?m = "find_minimum_subtree_child_value t"
  have s: "sorted_wrt (<) (keys (Some t))" using sorted_run [of h ops] assms(1) by simp
  have k: "keys (Some t) = map h (iter t)"
    using consistent_keys [OF assms(2)] by (simp add: iter_entries)
  with assms(3) have "\<forall>k'\<in>set (keys (Some t)). k' < h x" by simp
  then have "walk h (h x) (Some t) None = Inr None" by (rule walk_all_smaller)
  then have f: "find_best_match h truthy (run h ops) x = Some ?m"
    using assms(1) by (simp add: find_best_match_def)
  from minimum_entry [OF s] assms(2) have "Min (set (keys (Some t))) = h ?m"
    by (auto simp: list_all_iff)
  moreover have "Min (set (keys (Some t))) \<le> h v" if "v \<in> set (iter t)" for v
    using that k by (intro Min_le) simp_all
  ultimately have "\<forall>v\<in>set (iter t). h ?m \<le> h v" by simp
  with f find_minimum_in_iter [of t] show ?thesis by blast
qed

lemma find_best_match_in_traversal:
  assumes "head ring = Some t"
  shows "\<exists>v\<in>set (iter t). find_best_match h truthy ring x = Some v"
proof (cases "walk h (h x) (Some t) None")
  case (Inl v)
  with walk_Inl_in_iter [OF Inl] assms show ?thesis
    by (simp add: find_best_match_def)
next
  case (Inr bm)
  show ?thesis
  proof (cases bm)
    case None
    with Inr assms find_minimum_in_iter [of t] show ?thesis
      by (simp add: find_best_match_def)
  next
    case (Some b)
    with Inr have "walk h (h x) (Some t) None = Inr (Some b)" by simp
    from walk_Inr_in_iter [OF this] have "b \<in> set (iter t)" by simp
    with Inr Some assms find_minimum_in_iter [of t] show ?thesis
      by (simp add: find_best_match_def)
  qed
qed

lemma lookup_of_stored_None:
  "returned_value (find_best_match h truthy (run h [Add None]) x) = None"
  by (simp add: run_def new_ring_def add_node_def new_SubTree_def find_best_match_def
      returned_value_def closer_def best_match_key_def)

section \<open>Rings built by additions alone\<close>

text \<open>
  After additions alone every node still has \<open>key = h value\<close>. The traversal of a ring
  built from at least one value holds exactly the added values, in strictly increasing
  order of their keys.
\<close>

lemma entries_run_adds:
  "distinct (map h xs) \<Longrightarrow>
   mset (entries (head (run h (map Add xs)))) = mset (map (\<lambda>x. (h x, x)) xs)"
proof (induction xs rule: rev_induct)
  case Nil
  then show ?case by (simp add: run_def new_ring_def)
next
  case (snoc x xs)
  let ?ring = "run h (map Add xs)"
  from snoc have IH: "mset (entries (head ?ring)) = mset (map (\<lambda>x. (h x, x)) xs)"
    and new: "h x \<notin> h ` set xs" by auto
  from IH have "set (entries (head ?ring)) = set (map (\<lambda>x. (h x, x)) xs)"
    by (rule mset_eq_setD)
  then have "set (keys (head ?ring)) = h ` set xs"
    by (simp add: keys_def image_image)
  with new have nk: "h x \<notin> set (keys (head ?ring))" by simp
  have step: "run h (map Add (xs @ [x])) = add_node h ?ring x"
    by (simp add: run_snoc)
  show ?case
  proof (cases "head ?ring")
    case None
    with IH have "xs = []" by simp
    with None show ?thesis
      unfolding step by (simp add: add_node_def new_SubTree_def)
  next
    case (Some t)
    with nk IH show ?thesis
      unfolding step by (simp add: add_node_def entries_add_child)
  qed
qed

lemma head_run_adds: "xs \<noteq> [] \<Longrightarrow> head (run h (map Add xs)) \<noteq> None"
  by (cases xs rule: rev_cases) (auto simp: run_snoc add_node_def split: option.splits)

lemma order_preservation_nonempty:
  assumes "xs \<noteq> []" and "distinct (map h xs)"
  shows "\<exists>ys. ring_iter (run h (map Add xs)) = Inr ys \<and> mset ys = mset xs \<and>
           sorted_wrt (<) (map h ys)"
proof -
  from head_run_adds [OF assms(1)] obtain t where t: "head (run h (map Add xs)) = Some t"
    by blast
  have e: "mset (entries (Some t)) = mset (map (\<lambda>x. (h x, x)) xs)"
    using entries_run_adds [OF assms(2)] t by simp
  have "mset (iter t) = image_mset snd (mset (entries (Some t)))"
    by (simp add: iter_entries)
  also have "\<dots> = mset xs" by (simp add: e multiset.map_comp comp_def)
  finally have m: "mset (iter t) = mset xs" .
  from e have "set (entries (Some t)) = set (map (\<lambda>x. (h x, x)) xs)" by (rule mset_eq_setD)
  then have "list_all (\<lambda>(k, v). k = h v) (entries (Some t))"
    by (auto simp: list_all_iff)
  then have "keys (Some t) = map h (iter t)"
    using consistent_keys by (simp add: iter_entries)
  moreover have "sorted_wrt (<) (keys (Some t))" using sorted_run [of h "map Add xs"] t by simp
  ultimately have "sorted_wrt (<) (map h (iter t))" by simp
  with m t show ?thesis by (simp add: ring_iter_def)
qed

section \<open>The successor of a key\<close>

text \<open>
  On a tree with ordered keys whose nodes all have \<open>key = h value\<close>, the walk for a key
  that is not stored ends with the value of the first entry above the key, which is the
  entry with the least key above it. \<open>find_best_match\<close> returns that value when it is
  true in Python's sense, and the leftmost value of the tree when it is false.
\<close>

lemma find_append_cases:
  "find P (xs @ ys) = (case find P xs of None \<Rightarrow> find P ys | Some x \<Rightarrow> Some x)"
  by (induction xs) auto

lemma find_none_iff_all: "find P xs = None \<longleftrightarrow> (\<forall>x\<in>set xs. \<not> P x)"
  by (induction xs) auto

lemma walk_successor:
  assumes "sorted_wrt (<) (keys c)" and "list_all (\<lambda>(k', v). k' = h v) (entries c)"
    and "k \<notin> set (keys c)"
    and "case bm of None \<Rightarrow> True | Some b \<Rightarrow> \<forall>k'\<in>set (keys c). k' < h b"
  shows "walk h k c bm =
           Inr (case find (\<lambda>(k', v). k < k') (entries c) of
                  None \<Rightarrow> bm | Some (k', v) \<Rightarrow> Some v)"
  using assms
proof (induction h k c bm rule: walk.induct)
  case (1 h k best_match)
  then show ?case by simp
next
  case (2 h k v nk l r bm)
  from "2.prems"(1) have sl: "sorted_wrt (<) (keys l)" and sr: "sorted_wrt (<) (keys r)"
    and lk: "\<forall>a\<in>set (keys l). a < nk" and kr: "\<forall>b\<in>set (keys r). nk < b"
    by (auto simp: sorted_wrt_append)
  from "2.prems"(2) have cl: "list_all (\<lambda>(k', v). k' = h v) (entries l)"
    and cr: "list_all (\<lambda>(k', v). k' = h v) (entries r)" and hv: "nk = h v"
    by simp_all
  from "2.prems"(3) have nl: "k \<notin> set (keys l)" and nr: "k \<notin> set (keys r)" and ne: "nk \<noteq> k"
    by auto
  let ?P = "\<lambda>(k', v). k < k'"
  consider (gt) "k < nk" | (lt) "nk < k" using ne by linarith
  then show ?case
  proof cases
    case gt
    have c: "closer nk k (best_match_key h bm)"
    proof (cases bm)
      case None
      then show ?thesis by (simp add: closer_def best_match_key_def)
    next
      case (Some b)
      with "2.prems"(4) have "nk < h b" by simp
      with gt Some show ?thesis by (simp add: closer_def best_match_key_def)
    qed
    have "walk h k l (Some v) =
        Inr (case find ?P (entries l) of None \<Rightarrow> Some v | Some (k', v) \<Rightarrow> Some v)"
      using "2.IH"(1) [OF ne gt] c sl cl nl lk hv by simp
    with gt c ne show ?thesis
      by (simp add: find_append_cases split: option.splits)
  next
    case lt
    have "find ?P (entries l) = None"
      using lk lt by (fastforce simp: find_none_iff_all keys_def)
    moreover have "walk h k r bm =
        Inr (case find ?P (entries r) of None \<Rightarrow> bm | Some (k', v) \<Rightarrow> Some v)"
      using "2.IH"(2) [OF ne _ sr cr nr] lt "2.prems"(4) by (cases bm) auto
    ultimately show ?thesis using lt ne
      by (simp add: find_append_cases)
  qed
qed

lemma find_first_above:
  fixes es :: "(int \<times> 'a) list"
  assumes "sorted_wrt (<) (map fst es)" and "find (\<lambda>(k', v). k < k') es = Some (k', w)"
  shows "(k', w) \<in> set es \<and> k < k' \<and> (\<forall>(k'', v)\<in>set es. k < k'' \<longrightarrow> k' \<le> k'')"
  using assms
proof (induction es)
  case Nil
  then show ?case by simp
next
  case (Cons e es)
  show ?case
  proof (cases "k < fst e")
    case True
    with Cons.prems(2) have e: "e = (k', w)" by (simp add: case_prod_unfold)
    from Cons.prems(1) have "\<forall>e'\<in>set es. fst e < fst e'" by simp
    with e True show ?thesis by (auto simp: less_imp_le)
  next
    case False
    with Cons.prems(2) have "find (\<lambda>(k', v). k < k') es = Some (k', w)"
      by (simp add: case_prod_unfold)
    with Cons.IH Cons.prems(1) False show ?thesis by (auto simp: case_prod_unfold)
  qed
qed

lemma exact_match_sorted:
  assumes "head (run h ops) = Some t" and "(h x, w) \<in> set (entries (Some t))"
  shows "find_best_match h truthy (run h ops) x = Some w"
proof -
  have "sorted_wrt (<) (keys (Some t))" using sorted_run [of h ops] assms(1) by simp
  then have "walk h (h x) (Some t) None = Inl w" using assms(2) by (rule walk_exact)
  with assms(1) show ?thesis by (simp add: find_best_match_def)
qed

lemma successor_rule_by_truth:
  assumes "head (run h ops) = Some t"
    and "list_all (\<lambda>(k, v). k = h v) (entries (Some t))"
    and "h x \<notin> set (keys (Some t))"
    and "find (\<lambda>(k', v). h x < k') (entries (Some t)) = Some (k', w)"
  shows "find_best_match h truthy (run h ops) x =
           Some (if truthy w then w else find_minimum_subtree_child_value t)"
proof -
  have "sorted_wrt (<) (keys (Some t))" using sorted_run [of h ops] assms(1) by simp
  then have "walk h (h x) (Some t) None =
      Inr (case find (\<lambda>(k', v). h x < k') (entries (Some t)) of
             None \<Rightarrow> None | Some (k', v) \<Rightarrow> Some v)"
    using assms(2,3) by (intro walk_successor) simp_all
  with assms(1,4) show ?thesis by (simp add: find_best_match_def)
qed

section \<open>The properties of the specification\<close>

subsection \<open>Successor rule\<close>

text \<open>
  C1. For a ring whose stored keys are \<open>k1 < ... < kn\<close> and a lookup value whose key lies
  strictly between \<open>ki\<close> and \<open>ki+1\<close>, \<open>find_best_match\<close> returns the value whose key
  is \<open>ki+1\<close>. The source ends with \<open>if best_match:\<close>, the truth value of the candidate
  and not a test against \<open>None\<close>: a successor that is false in Python's sense, such as
  the integer 0, is dropped for the minimum of the ring. After \<open>add_node(0)\<close> and
  \<open>add_node(-5)\<close> the traversal is \<open>[-5, 0]\<close>, the key of \<open>-3\<close> lies between the two
  keys, and the lookup of \<open>-3\<close> returns \<open>-5\<close> where the rule asks for \<open>0\<close>.
\<close>

theorem successor_rule_falsy_successor:
  "ring_iter (run py_hash_int [Add 0, Add (- 5)]) = Inr [- 5, 0] \<and>
   map py_hash_int [- 5, - 3, 0] = [- 5, - 3, 0] \<and>
   find_best_match py_hash_int py_truthy_int (run py_hash_int [Add 0, Add (- 5)]) (- 3)
     = Some (- 5)"
  by code_simp

subsection \<open>Round-trip membership\<close>

text \<open>
  C2. An inserted value is contained; after \<open>remove(v)\<close>, \<open>contains(v)\<close> is false; removing
  an absent value leaves the traversal unchanged. The middle part fails when the removed
  node has two children: the node keeps its \<open>key\<close> and only takes the value of its
  successor, so the key of the removed value is still found. After adding 5, 3, 8 and
  removing 5, the root holds the value 8 under the key 5 and \<open>SubTree.__contains__\<close> of
  5 is true. Read as \<open>value in ring\<close> the test does not return false either once the
  removal has emptied the ring: it raises \<open>TypeError\<close> (see C7). (The first part is
  \<open>contains_add_child\<close>, the last \<open>remove_value_absent\<close>.)
\<close>

theorem contains_after_remove_two_children:
  "head (run py_hash_int [Add 5, Add 3, Add 8, Remove 5])
     = Some (Node 8 5 (Some (Node 3 3 None None)) None) \<and>
   contains py_hash_int (Node 8 5 (Some (Node 3 3 None None)) None) 5 \<and>
   ring_contains (run py_hash_int [Add 5, Remove 5]) 5 = Inl TypeError"
  by code_simp

subsection \<open>Removal of a node with two children\<close>

text \<open>
  C3. On a key match at a node with both children, \<open>remove_value\<close> overwrites the node's
  pair of value and key with the pair of its in-order successor, removes the successor from
  the right subtree and returns the node, so that every node still has
  \<open>key = hash(value)\<close>. The source assigns \<open>self.value\<close> and \<open>self.right\<close> and leaves
  \<open>self.key\<close> as it was: removing 5 from the tree of 5, 3, 8 gives a root with the value
  8 and the key 5, while the hash of 8 is 8.
\<close>

theorem remove_value_keeps_key:
  "head (run py_hash_int [Add 5, Add 3, Add 8])
     = Some (Node 5 5 (Some (Node 3 3 None None)) (Some (Node 8 8 None None))) \<and>
   remove_value py_hash_int
     (Node 5 5 (Some (Node 3 3 None None)) (Some (Node 8 8 None None))) 5
     = Some (Node 8 5 (Some (Node 3 3 None None)) None) \<and>
   py_hash_int 8 = 8"
  by code_simp

subsection \<open>Exact-match lookup\<close>

text \<open>
  C4. For every value stored in a ring obtained by additions and removals,
  \<open>find_best_match\<close> of the value returns the value. After adding 5, 3, 8 and removing 5
  the ring stores 3 and 8, with 8 under the key 5 (see C3); the lookup of 8 goes right from
  the root, finds nothing and returns the minimum 3. (On a ring whose nodes have the keys of
  their values, the lookup of a stored value returns it: \<open>exact_match_sorted\<close>.)
\<close>

theorem exact_match_after_remove:
  "ring_iter (run py_hash_int [Add 5, Add 3, Add 8, Remove 5]) = Inr [3, 8] \<and>
   find_best_match py_hash_int py_truthy_int
     (run py_hash_int [Add 5, Add 3, Add 8, Remove 5]) 8 = Some 3"
  by code_simp

subsection \<open>Wraparound rule\<close>

text \<open>
  C5. For every non-empty ring and every lookup value whose key is strictly greater than
  every stored key, \<open>find_best_match\<close> returns the value with the minimum stored key.
  After adding 2, 1, 4, removing 2, adding 3 and removing 1 the root holds the value 4 under
  the key 2 (see C3) with the value 3 to its right: the traversal is \<open>[4, 3]\<close>. The key of
  9 is above the keys of both values, the walk finds no candidate, and the leftmost value
  4 is returned where the value with the minimum key is 3. (On a ring whose nodes have the
  keys of their values the rule holds, \<open>wraparound_consistent\<close>; on every ring the
  leftmost value is the one under the least \<open>key\<close> attribute,
  \<open>wraparound_key_attribute\<close>.)
\<close>

theorem wraparound_after_remove:
  "ring_iter (run py_hash_int [Add 2, Add 1, Add 4, Remove 2, Add 3, Remove 1]) = Inr [4, 3] \<and>
   map py_hash_int [4, 3, 9] = [4, 3, 9] \<and>
   find_best_match py_hash_int py_truthy_int
     (run py_hash_int [Add 2, Add 1, Add 4, Remove 2, Add 3, Remove 1]) 9 = Some 4"
  by code_simp

subsection \<open>No duplicate keys\<close>

text \<open>
  C6. After every sequence of additions and removals no two stored values have equal
  computed keys, and adding a value whose key equals the key of a stored value changes
  nothing. After adding 5, 3, 8 and removing 5 the value 8 sits under the key 5 (see C3);
  adding 8 again compares its key 8 with 5, goes right and creates a second node for 8.
  (On a tree with ordered keys, adding a value whose key is a \<open>key\<close> attribute of some
  node changes nothing: \<open>add_child_present\<close>.)
\<close>

theorem duplicate_after_remove:
  "ring_iter (run py_hash_int [Add 5, Add 3, Add 8, Remove 5]) = Inr [3, 8] \<and>
   ring_iter (run py_hash_int [Add 5, Add 3, Add 8, Remove 5, Add 8]) = Inr [3, 8, 8]"
  by code_simp

subsection \<open>Emptiness\<close>

text \<open>
  C7. On a freshly constructed empty ring, \<open>length()\<close> returns 0, \<open>iterate()\<close> yields an
  empty sequence and \<open>find_best_match\<close> of any value returns "no value"; none of them
  raises. In the source \<open>find_best_match\<close> does return \<open>None\<close>, but \<open>__len__\<close> and
  \<open>__iter__\<close> both call \<open>iter(self.head)\<close> with \<open>self.head = None\<close>, which raises
  \<open>TypeError\<close>.
\<close>

theorem empty_ring_len_iter_raise:
  "ring_len (new_ring h None) = Inl TypeError \<and>
   ring_iter (new_ring h None) = Inl TypeError \<and>
   find_best_match h truthy (new_ring h None) x = None"
  by (simp add: ring_len_def ring_iter_def find_best_match_def new_ring_def)

subsection \<open>Membership test of the ring\<close>

text \<open>
  C8. The membership test of the ring returns false on an empty ring and the result of
  the root's comparison of keys otherwise. The class defines no membership method, so
  \<open>value in ring\<close> looks for an equal value in the traversal. With the value \<open>-2\<close>
  stored, \<open>-1 in ring\<close> is false, while the root's test of \<open>-1\<close> is true, both integers
  having the hash \<open>-2\<close>.
\<close>

theorem ring_contains_collision:
  "head (run py_hash_int [Add (- 2)]) = Some (Node (- 2) (- 2) None None) \<and>
   contains py_hash_int (Node (- 2) (- 2) None None) (- 1) \<and>
   ring_contains (run py_hash_int [Add (- 2)]) (- 1) = Inr False"
  by code_simp

text \<open>
  C8, as amended. On a non-empty ring built by additions and removals whose nodes all have
  \<open>key = hash(value)\<close>, and for a value whose hash is not shared by a different stored
  value, \<open>value in ring\<close> returns what the root's comparison of keys returns.
\<close>

theorem ring_contains_agrees:
  assumes "head (run h ops) = Some t"
    and "list_all (\<lambda>(k, v). k = h v) (entries (Some t))"
    and "\<forall>y\<in>set (iter t). h y = h x \<longrightarrow> y = x"
  shows "ring_contains (run h ops) x = Inr (contains h t x)"
proof -
  have s: "sorted_wrt (<) (keys (Some t))" using sorted_run [of h ops] assms(1) by simp
  have "keys (Some t) = map h (iter t)"
    using consistent_keys [OF assms(2)] by (simp add: iter_entries)
  then have "contains h t x \<longleftrightarrow> h x \<in> h ` set (iter t)"
    using contains_iff_key [OF s, of h x] by simp
  also have "\<dots> \<longleftrightarrow> x \<in> set (iter t)" using assms(3) by auto
  finally show ?thesis using assms(1) by (simp add: ring_contains_def ring_iter_def)
qed

theorem ring_contains_agrees_witness:
  "ring_contains (run py_hash_int [Add 5, Add 3, Add 8]) 3 = Inr True \<and>
   contains py_hash_int (Node (5::int) 5 (Some (Node 3 3 None None)) (Some (Node 8 8 None None))) 3"
proof -
  let ?t = "Node (5::int) 5 (Some (Node 3 3 None None)) (Some (Node 8 8 None None))"
  have h1: "head (run py_hash_int [Add 5, Add 3, Add 8]) = Some ?t" by code_simp
  have h2: "list_all (\<lambda>(k, v). k = py_hash_int v) (entries (Some ?t))"
    by (simp add: py_hash_int_def)
  have h3: "\<forall>y\<in>set (iter ?t). py_hash_int y = py_hash_int 3 \<longrightarrow> y = 3"
    by (simp add: py_hash_int_def)
  have c: "contains py_hash_int ?t 3" by (simp add: py_hash_int_def)
  with ring_contains_agrees [OF h1 h2 h3] show ?thesis by simp
qed

subsection \<open>Order preservation\<close>

text \<open>
  C9. For every sequence of values with pairwise distinct keys added to a freshly
  constructed empty ring, \<open>iterate()\<close> yields exactly those values in strictly increasing
  order of their keys. For the sequence of no values the ring is still empty and
  \<open>iterate()\<close> raises \<open>TypeError\<close> (see C7) where the property asks for the empty
  sequence. For every sequence of at least one value the property holds:
  \<open>order_preservation_nonempty\<close>.
\<close>

theorem iterate_no_values_raises:
  "ring_iter (run h (map Add [])) = Inl TypeError"
  by (simp add: run_def new_ring_def ring_iter_def)

subsection \<open>The result of a lookup is stored\<close>

text \<open>
  C10. On a non-empty ring \<open>find_best_match\<close> of any value returns a value of the
  traversal of the ring; it returns \<open>None\<close> only when the ring is empty. The second
  part fails on a ring that stores \<open>None\<close>: after \<open>add_node(None)\<close> the ring is not
  empty and the lookup of 5 returns the stored \<open>None\<close> (for every hash of \<open>None\<close>:
  \<open>lookup_of_stored_None\<close>).
\<close>

theorem find_best_match_of_stored_None:
  "ring_iter (run (py_hash 4238894112 py_hash_int) [Add None]) = Inr [None] \<and>
   returned_value
     (find_best_match (py_hash 4238894112 py_hash_int) (py_truthy py_truthy_int)
        (run (py_hash 4238894112 py_hash_int) [Add None]) (Some 5)) = None"
  by code_simp

text \<open>
  C10, as amended. On a non-empty ring \<open>find_best_match\<close> of any value returns a value
  of the traversal of the ring; it returns \<open>None\<close> only when the ring is empty or
  \<open>None\<close> is one of the values of the traversal. The first part holds for every tree,
  whatever its keys are.
\<close>

theorem find_best_match_stored_or_None:
  fixes ring :: "'v option ConsistentHashRing"
  shows "(\<forall>t. head ring = Some t \<longrightarrow>
            (\<exists>v\<in>set (iter t). find_best_match h truthy ring x = Some v)) \<and>
         (returned_value (find_best_match h truthy ring x) = None \<longrightarrow>
            head ring = None \<or> (\<exists>t. head ring = Some t \<and> None \<in> set (iter t)))"
proof (cases "head ring")
  case None
  then show ?thesis by simp
next
  case (Some t)
  from find_best_match_in_traversal [OF Some, of h truthy x]
  obtain v where "v \<in> set (iter t)" "find_best_match h truthy ring x = Some v" by blast
  with Some show ?thesis by (auto simp: returned_value_def)
qed

theorem find_best_match_stored_or_None_witness:
  "ring_iter (run (py_hash 4238894112 py_hash_int) [Add (Some 5), Add None, Add (Some 8)])
     = Inr [Some 5, Some 8, None] \<and>
   returned_value
     (find_best_match (py_hash 4238894112 py_hash_int) (py_truthy py_truthy_int)
        (run (py_hash 4238894112 py_hash_int) [Add (Some 5), Add None, Add (Some 8)]) (Some 6))
     = Some 8 \<and>
   returned_value
     (find_best_match (py_hash 4238894112 py_hash_int) (py_truthy py_truthy_int)
        (run (py_hash 4238894112 py_hash_int) [Add (Some 5), Add None, Add (Some 8)]) None)
     = None"
proof -
  let ?h = "py_hash 4238894112 py_hash_int"
  let ?ring = "run ?h [Add (Some 5), Add None, Add (Some 8)]"
  let ?t = "Node (Some (5::int)) 5 None
              (Some (Node None 4238894112 (Some (Node (Some 8) 8 None None)) None))"
  have h1: "head ?ring = Some ?t" by code_simp
  have i: "iter ?t = [Some 5, Some 8, None]" by simp
  from find_best_match_stored_or_None [of ?ring ?h "py_truthy py_truthy_int" "Some 6"] h1
  obtain v where v: "v \<in> set (iter ?t)"
    and f: "find_best_match ?h (py_truthy py_truthy_int) ?ring (Some 6) = Some v"
    by blast
  have "find_best_match ?h (py_truthy py_truthy_int) ?ring (Some 6) \<noteq> Some (Some 5)"
    "find_best_match ?h (py_truthy py_truthy_int) ?ring (Some 6) \<noteq> Some None"
    by code_simp+
  with v f have "v = Some 8" by auto
  moreover have "returned_value
      (find_best_match ?h (py_truthy py_truthy_int) ?ring None) = None"
    by code_simp
  ultimately show ?thesis using f h1 i by (simp add: returned_value_def ring_iter_def)
qed

end
